theory Spec2Isabelle
  imports Main
begin

section \<open>Strings\<close>

text \<open>
  The chunker of \<^verbatim>\<open>markdown_strategy.py\<close> works on Python \<^verbatim>\<open>str\<close> values. A string is
  modelled as a \<^typ>\<open>string\<close>, each \<^typ>\<open>char\<close> standing for one code point below 256.
  The debugging \<^verbatim>\<open>print\<close> calls of the source and the counter \<^verbatim>\<open>chunk_count\<close>, which is
  only printed, are left out: they change neither the chunks nor the ticks.
\<close>

abbreviation NL :: char where
  "NL \<equiv> CHR 0x0A"

text \<open>
  The characters below 256 for which Python's \<^verbatim>\<open>str.isspace\<close> holds. The same set is used
  by \<^verbatim>\<open>str.split()\<close>, by \<^verbatim>\<open>str.strip()\<close> and by the class \<^verbatim>\<open>\s\<close> of a \<^verbatim>\<open>str\<close> pattern.
\<close>

definition isspace :: "char \<Rightarrow> bool" where
  "isspace c \<longleftrightarrow> c \<in> set [CHR 0x09, CHR 0x0A, CHR 0x0B, CHR 0x0C, CHR 0x0D,
                       CHR 0x1C, CHR 0x1D, CHR 0x1E, CHR 0x1F, CHR 0x20, CHR 0x85, CHR 0xA0]"

text \<open>\<^verbatim>\<open>s.strip()\<close>: leading and trailing whitespace removed.\<close>

definition strip :: "string \<Rightarrow> string" where
  "strip s = rev (dropWhile isspace (rev (dropWhile isspace s)))"

text \<open>
  \<^verbatim>\<open>s.split()\<close>: the maximal runs of non-whitespace characters. The first argument is the
  word being read, reversed.
\<close>

fun split_ws_from :: "string \<Rightarrow> string \<Rightarrow> string list" where
  "split_ws_from cur [] = (if cur = [] then [] else [rev cur])"
| "split_ws_from cur (c # cs) =
     (if isspace c
      then (if cur = [] then split_ws_from [] cs else rev cur # split_ws_from [] cs)
      else split_ws_from (c # cur) cs)"

definition split_ws :: "string \<Rightarrow> string list" where
  "split_ws s = split_ws_from [] s"

text \<open>
  \<^verbatim>\<open>text.split('\n\n')\<close>: the text is cut at each occurrence of two newlines, found from
  left to right without overlap. The result is never empty.
\<close>

fun split_paragraphs :: "string \<Rightarrow> string list" where
  "split_paragraphs [] = [[]]"
| "split_paragraphs [c] = [[c]]"
| "split_paragraphs (a # b # cs) =
     (if a = NL \<and> b = NL then [] # split_paragraphs cs
      else (case split_paragraphs (b # cs) of
              [] \<Rightarrow> [[a]]
            | p # ps \<Rightarrow> (a # p) # ps))"

text \<open>\<^verbatim>\<open>"\n\n".join(xs)\<close>.\<close>

fun join_paragraphs :: "string list \<Rightarrow> string" where
  "join_paragraphs [] = []"
| "join_paragraphs [p] = p"
| "join_paragraphs (p # q # ps) = p @ [NL, NL] @ join_paragraphs (q # ps)"

section \<open>The three patterns\<close>

text \<open>
  A pattern is run as Python's backtracking matcher runs it: a matcher maps the rest of
  the input to the rests left by each way of matching, in the order in which the
  matcher tries them. A pattern matches when that list is not empty.
\<close>

type_synonym matcher = "string \<Rightarrow> string list"

text \<open>A literal string.\<close>

definition rx_lit :: "string \<Rightarrow> matcher" where
  "rx_lit l s = (if take (length l) s = l then [drop (length l) s] else [])"

text \<open>
  A greedy repetition \<^verbatim>\<open>x{lo,hi}\<close> of a character class: the longest run first, then
  shorter ones. \<^verbatim>\<open>x+\<close> has no upper bound.
\<close>

definition rx_rep_counts :: "(char \<Rightarrow> bool) \<Rightarrow> nat \<Rightarrow> nat \<Rightarrow> string \<Rightarrow> nat list" where
  "rx_rep_counts P lo hi s = rev [lo ..< Suc (min hi (length (takeWhile P s)))]"

definition rx_plus :: "(char \<Rightarrow> bool) \<Rightarrow> matcher" where
  "rx_plus P s = map (\<lambda>m. drop m s) (rx_rep_counts P 1 (length s) s)"

text \<open>A lazy repetition \<^verbatim>\<open>x*?\<close> of a character class: the shortest run first.\<close>

definition rx_star_lazy :: "(char \<Rightarrow> bool) \<Rightarrow> matcher" where
  "rx_star_lazy P s = map (\<lambda>m. drop m s) [0 ..< Suc (length (takeWhile P s))]"

text \<open>Sequence and alternative.\<close>

definition rx_seq :: "matcher \<Rightarrow> matcher \<Rightarrow> matcher" where
  "rx_seq f g s = concat (map g (f s))"

definition rx_alt :: "matcher \<Rightarrow> matcher \<Rightarrow> matcher" where
  "rx_alt f g s = f s @ g s"

text \<open>
  \<^verbatim>\<open>$\<close> under \<^verbatim>\<open>re.MULTILINE\<close>: at the end of the string and before every newline.
\<close>

definition rx_eol_multiline :: matcher where
  "rx_eol_multiline s = (case s of [] \<Rightarrow> [s] | c # _ \<Rightarrow> if c = NL then [s] else [])"

text \<open>\<^verbatim>\<open>pattern.search(s)\<close> as a truth value: the pattern matches at some position.\<close>

definition rx_search :: "matcher \<Rightarrow> string \<Rightarrow> bool" where
  "rx_search f s = list_ex (\<lambda>i. f (drop i s) \<noteq> []) [0 ..< Suc (length s)]"

text \<open>\<^verbatim>\<open>.\<close> without \<^verbatim>\<open>re.DOTALL\<close> is any character but a newline; with it, any character.\<close>

definition dot :: "char \<Rightarrow> bool" where
  "dot c \<longleftrightarrow> c \<noteq> NL"

definition dot_all :: "char \<Rightarrow> bool" where
  "dot_all c \<longleftrightarrow> True"

text \<open>
  \<^verbatim>\<open>header_pattern = re.compile(r'^(#{1,6})\s+(.+)$', re.MULTILINE)\<close>, used through
  \<^verbatim>\<open>header_pattern.match(s)\<close>, which tries position 0 only, where \<^verbatim>\<open>^\<close> holds. The
  result is \<^verbatim>\<open>len(header_match.group(1))\<close> of the first way of matching, the only part
  of the match object that the chunker uses apart from printing. \<open>header_rest\<close> is the
  pattern after the first group, \<^verbatim>\<open>\s+(.+)$\<close>.
\<close>

abbreviation header_rest :: matcher where
  "header_rest \<equiv> rx_seq (rx_plus isspace) (rx_seq (rx_plus dot) rx_eol_multiline)"

definition header_pattern :: "string \<Rightarrow> nat option" where
  "header_pattern s =
     (case filter (\<lambda>j. header_rest (drop j s) \<noteq> []) (rx_rep_counts (\<lambda>c. c = CHR ''#'') 1 6 s) of
        [] \<Rightarrow> None
      | j # _ \<Rightarrow> Some j)"

text \<open>
  \<^verbatim>\<open>table_pattern = re.compile(r'(<html>.*?<table>.*?</table>.*?</html>|<table>.*?</table>)', re.DOTALL)\<close>
\<close>

definition table_pattern :: matcher where
  "table_pattern =
     rx_alt
       (rx_seq (rx_lit ''<html>'') (rx_seq (rx_star_lazy dot_all) (rx_seq (rx_lit ''<table>'')
         (rx_seq (rx_star_lazy dot_all) (rx_seq (rx_lit ''</table>'')
           (rx_seq (rx_star_lazy dot_all) (rx_lit ''</html>'')))))))
       (rx_seq (rx_lit ''<table>'') (rx_seq (rx_star_lazy dot_all) (rx_lit ''</table>'')))"

text \<open>\<^verbatim>\<open>image_pattern = re.compile(r'!\[.*?\]\(.*?\)')\<close>\<close>

definition image_pattern :: matcher where
  "image_pattern =
     rx_seq (rx_lit ''!['') (rx_seq (rx_star_lazy dot) (rx_seq (rx_lit ''](''
       ) (rx_seq (rx_star_lazy dot) (rx_lit '')''))))"

section \<open>The chunker\<close>

text \<open>
  Modelled from the spec: the class \<^verbatim>\<open>ChunkingConfig\<close> is imported from
  \<^verbatim>\<open>graphrag.config.models.chunking_config\<close>, which is not among the source files. The
  spec gives the configuration as a positive integer \<open>max_size\<close> and an integer
  \<open>overlap\<close>; the chunker reads them as \<^verbatim>\<open>config.size\<close> and \<^verbatim>\<open>config.overlap\<close>. The
  field \<^verbatim>\<open>size\<close> is named \<open>size_cfg\<close> here.
\<close>

record ChunkingConfig =
  size_cfg :: int
  overlap :: int

text \<open>
  Modelled from the spec: the class \<^verbatim>\<open>TextChunk\<close> is imported from
  \<^verbatim>\<open>graphrag.index.operations.chunk_text.typing\<close>, which is not among the source files.
  The spec gives a chunk as a text, the indices of the documents it comes from and a
  token estimate that is not negative; the field names are those of the constructor
  calls of the chunker.
\<close>

record TextChunk =
  text_chunk :: string
  source_doc_indices :: "nat list"
  n_tokens :: nat

text \<open>
  \<^verbatim>\<open>run_markdown\<close> is a generator that also calls \<^verbatim>\<open>tick\<close>. Consuming it to the end gives
  a sequence of events: a chunk handed to the consumer, or a call \<^verbatim>\<open>tick(n)\<close>.
\<close>

datatype event = Yield TextChunk | Tick nat

text \<open>The local variables of the loop over the paragraphs of one document.\<close>

record chunker_state =
  current_chunk :: "string list"
  current_header_level :: nat
  current_header :: string

definition initial_state :: chunker_state where
  "initial_state = \<lparr>current_chunk = [], current_header_level = 0, current_header = []\<rparr>"

text \<open>
  The text of the chunk flushed at a header paragraph (lines 64 to 66), and the size
  check that follows every append, which the source writes twice with the same text
  (lines 108 to 120 and 126 to 138).
\<close>

definition header_flush_text :: "chunker_state \<Rightarrow> string" where
  "header_flush_text st =
     (let chunk_text = join_paragraphs (current_chunk st)
      in if current_header st \<noteq> [] then current_header st @ [NL, NL] @ chunk_text else chunk_text)"

definition size_flush :: "ChunkingConfig \<Rightarrow> nat \<Rightarrow> chunker_state \<Rightarrow> TextChunk list \<times> chunker_state" where
  "size_flush config doc_idx st =
     (let chunk_size = length (split_ws (join_paragraphs (current_chunk st)))
      in if int chunk_size > size_cfg config
         then ([\<lparr>text_chunk = join_paragraphs (current_chunk st),
                  source_doc_indices = [doc_idx],
                  n_tokens = chunk_size\<rparr>],
               st\<lparr>current_chunk := []\<rparr>)
         else ([], st))"

text \<open>
  The body of the loop over the paragraphs (lines 52 to 138): the chunks it yields and
  the variables after it.
\<close>

definition process_paragraph ::
  "ChunkingConfig \<Rightarrow> nat \<Rightarrow> chunker_state \<Rightarrow> string \<Rightarrow> TextChunk list \<times> chunker_state" where
  "process_paragraph config doc_idx st paragraph =
     (case header_pattern (strip paragraph) of
        Some header_level \<Rightarrow>
          (if current_chunk st \<noteq> [] \<and>
              (header_level \<le> current_header_level st \<or> current_header_level st = 0)
           then ([\<lparr>text_chunk = header_flush_text st,
                    source_doc_indices = [doc_idx],
                    n_tokens = length (split_ws (header_flush_text st))\<rparr>],
                 st\<lparr>current_chunk := [], current_header_level := header_level,
                    current_header := paragraph\<rparr>)
           else ([], st\<lparr>current_header_level := header_level, current_header := paragraph\<rparr>))
      | None \<Rightarrow>
          (let has_table = rx_search table_pattern paragraph;
               has_image = rx_search image_pattern paragraph
           in if has_table \<or> has_image
              then (let st1 = (if current_chunk st = [] \<and> current_header st \<noteq> []
                               then st\<lparr>current_chunk := current_chunk st @ [current_header st],
                                       current_header := []\<rparr>
                               else st)
                    in size_flush config doc_idx
                         (st1\<lparr>current_chunk := current_chunk st1 @ [paragraph]\<rparr>))
              else size_flush config doc_idx (st\<lparr>current_chunk := current_chunk st @ [paragraph]\<rparr>)))"

text \<open>The loop over the paragraphs.\<close>

fun process_paragraphs ::
  "ChunkingConfig \<Rightarrow> nat \<Rightarrow> chunker_state \<Rightarrow> string list \<Rightarrow> TextChunk list \<times> chunker_state" where
  "process_paragraphs config doc_idx st [] = ([], st)"
| "process_paragraphs config doc_idx st (paragraph # rest) =
     (let (out1, st1) = process_paragraph config doc_idx st paragraph;
          (out2, st2) = process_paragraphs config doc_idx st1 rest
      in (out1 @ out2, st2))"

text \<open>The last chunk of a document (lines 141 to 154).\<close>

definition final_flush :: "nat \<Rightarrow> chunker_state \<Rightarrow> TextChunk list" where
  "final_flush doc_idx st =
     (if current_chunk st \<noteq> []
      then (let chunk_text = join_paragraphs (current_chunk st);
                chunk_text = (if current_header st \<noteq> [] \<and> current_header st \<notin> set (current_chunk st)
                              then current_header st @ [NL, NL] @ chunk_text else chunk_text)
            in [\<lparr>text_chunk = chunk_text,
                 source_doc_indices = [doc_idx],
                 n_tokens = length (split_ws chunk_text)\<rparr>])
      else [])"

text \<open>The chunks of one non-empty document, in the order in which they are yielded.\<close>

definition document_chunks :: "ChunkingConfig \<Rightarrow> nat \<Rightarrow> string \<Rightarrow> TextChunk list" where
  "document_chunks config doc_idx text =
     (let (out, st) = process_paragraphs config doc_idx initial_state (split_paragraphs text)
      in out @ final_flush doc_idx st)"

text \<open>
  The loop over the documents, from index \<open>doc_idx\<close> on: an empty text is skipped with
  a tick, any other text yields its chunks and then ticks.
\<close>

fun run_documents :: "ChunkingConfig \<Rightarrow> nat \<Rightarrow> string list \<Rightarrow> event list" where
  "run_documents config doc_idx [] = []"
| "run_documents config doc_idx (text # rest) =
     (if text = [] then Tick 1 # run_documents config (Suc doc_idx) rest
      else map Yield (document_chunks config doc_idx text) @ Tick 1
             # run_documents config (Suc doc_idx) rest)"

definition run_markdown :: "string list \<Rightarrow> ChunkingConfig \<Rightarrow> event list" where
  "run_markdown input config = run_documents config 0 input"

text \<open>The chunks handed to the consumer, and the arguments of the calls of \<^verbatim>\<open>tick\<close>.\<close>

fun yielded :: "event list \<Rightarrow> TextChunk list" where
  "yielded [] = []"
| "yielded (Yield c # es) = c # yielded es"
| "yielded (Tick n # es) = yielded es"

fun ticks :: "event list \<Rightarrow> nat list" where
  "ticks [] = []"
| "ticks (Yield c # es) = ticks es"
| "ticks (Tick n # es) = n # ticks es"

text \<open>The number of words of the pending paragraphs, as the size check computes it.\<close>

definition pending_words :: "chunker_state \<Rightarrow> nat" where
  "pending_words st = length (split_ws (join_paragraphs (current_chunk st)))"

text \<open>
  Modelled from the spec's words, for comparison with \<open>header_pattern\<close>: "the paragraph,
  after trimming surrounding whitespace, matches an ATX-style header: 1 to 6 leading
  \<^verbatim>\<open>#\<close> characters followed by whitespace and header text", the whole of it being one
  header line.
\<close>

definition spec_atx_header_line :: "string \<Rightarrow> bool" where
  "spec_atx_header_line s \<longleftrightarrow>
     NL \<notin> set s \<and>
     (let k = length (takeWhile (\<lambda>c. c = CHR ''#'') s);
          r = drop k s;
          w = length (takeWhile isspace r)
      in 1 \<le> k \<and> k \<le> 6 \<and> 1 \<le> w \<and> drop w r \<noteq> [])"

text \<open>
  Vocabulary for the statements about the paragraphs of a chunk. A paragraph is a header
  when the loop takes the header branch for it; the appended paragraphs of a document
  are the others, which the loop appends to \<^verbatim>\<open>current_chunk\<close> (lines 105 and 123).
\<close>

definition is_header :: "string \<Rightarrow> bool" where
  "is_header p \<longleftrightarrow> header_pattern (strip p) \<noteq> None"

definition appended :: "string list \<Rightarrow> string list" where
  "appended ps = filter (\<lambda>p. \<not> is_header p) ps"

text \<open>A text with a header in front of it, or without one when the header is empty.\<close>

definition prefixed :: "string \<Rightarrow> string \<Rightarrow> string" where
  "prefixed h t = (if h = [] then t else h @ [NL, NL] @ t)"

text \<open>
  A chunk text \<open>t\<close> carries the group \<open>g\<close> of appended paragraphs, for the header
  paragraphs \<open>hs\<close> of the document, when \<open>g\<close> is not empty and \<open>t\<close> is the paragraphs of
  \<open>g\<close> joined by blank lines, with nothing else than headers in front: at most one
  header that line 101 put into \<^verbatim>\<open>current_chunk\<close>, and at most one header prefix.
\<close>

definition seeds :: "string list \<Rightarrow> string list list" where
  "seeds hs = [] # map (\<lambda>h. [h]) hs"

definition carries :: "string list \<Rightarrow> string \<Rightarrow> string list \<Rightarrow> bool" where
  "carries hs t g \<longleftrightarrow>
     g \<noteq> [] \<and>
     (\<exists>h \<in> set ([] # hs). \<exists>seed \<in> set (seeds hs). t = prefixed h (join_paragraphs (seed @ g)))"

text \<open>
  The invariant of the loop over the paragraphs: the active header is empty or a header
  of the document, and the pending paragraphs are at most one such header followed by
  appended paragraphs, of which there is at least one between two paragraphs.
\<close>

definition pending_form :: "string list \<Rightarrow> chunker_state \<Rightarrow> bool" where
  "pending_form hs st \<longleftrightarrow>
     current_header st \<in> set ([] # hs) \<and>
     filter is_header (current_chunk st) \<in> set (seeds hs) \<and>
     current_chunk st = filter is_header (current_chunk st) @ appended (current_chunk st)"

definition pending_shape :: "string list \<Rightarrow> chunker_state \<Rightarrow> bool" where
  "pending_shape hs st \<longleftrightarrow>
     pending_form hs st \<and> (current_chunk st = [] \<or> appended (current_chunk st) \<noteq> [])"

section \<open>Events and word counts\<close>

lemma yielded_append: "yielded (xs @ ys) = yielded xs @ yielded ys"
  by (induction xs rule: yielded.induct) simp_all

lemma yielded_map_Yield: "yielded (map Yield cs) = cs"
  by (induction cs) simp_all

lemma ticks_append: "ticks (xs @ ys) = ticks xs @ ticks ys"
  by (induction xs rule: ticks.induct) simp_all

lemma ticks_map_Yield: "ticks (map Yield cs) = []"
  by (induction cs) simp_all

lemma split_ws_from_space:
  "isspace c \<Longrightarrow> split_ws_from cur (a @ c # b) = split_ws_from cur a @ split_ws_from [] b"
  by (induction a arbitrary: cur) auto

lemma split_ws_space: "isspace c \<Longrightarrow> split_ws (a @ c # b) = split_ws a @ split_ws b"
  by (simp add: split_ws_def split_ws_from_space)

lemma isspace_NL: "isspace NL"
  by (simp add: isspace_def)

lemma split_ws_NL_Cons: "split_ws (NL # b) = split_ws b"
  using split_ws_space [of NL "[]" b] by (simp add: isspace_NL split_ws_def)

lemma word_count_prefixed:
  "length (split_ws (h @ NL # NL # t)) = length (split_ws h) + length (split_ws t)"
  using split_ws_space [of NL h "NL # t"] by (simp add: isspace_NL split_ws_NL_Cons)

section \<open>The scenario of the specification\<close>

text \<open>
  Claim C1, as the code has it. For the document
  \<^verbatim>\<open>"# Title\n\nAlpha beta.\n\nGamma delta epsilon zeta."\<close> and \<^verbatim>\<open>max_size = 3\<close> exactly one
  chunk is emitted, by the size check after the second plain paragraph. Its text is the
  two plain paragraphs joined by a blank line, without the header in front: the size
  check flushes the pending paragraphs as they are. Its token estimate is 6, and the
  document ticks once.
\<close>

theorem scenario_title_alpha_gamma:
  "run_markdown [''# Title\<newline>\<newline>Alpha beta.\<newline>\<newline>Gamma delta epsilon zeta.'']
     \<lparr>size_cfg = 3, overlap = ov\<rparr> =
   [Yield \<lparr>text_chunk = ''Alpha beta.\<newline>\<newline>Gamma delta epsilon zeta.'',
            source_doc_indices = [0], n_tokens = 6\<rparr>,
    Tick 1]"
  by code_simp

text \<open>The text that the scenario expects, with the header in front, is not what is emitted.\<close>

theorem scenario_title_alpha_gamma_counterexample:
  "map text_chunk (yielded (run_markdown
       [''# Title\<newline>\<newline>Alpha beta.\<newline>\<newline>Gamma delta epsilon zeta.'']
       \<lparr>size_cfg = 3, overlap = 0\<rparr>))
   \<noteq> [''# Title\<newline>\<newline>Alpha beta.\<newline>\<newline>Gamma delta epsilon zeta.'']"
  by code_simp

section \<open>Token estimates\<close>

lemma size_flush_tokens:
  "c \<in> set (fst (size_flush config i st)) \<Longrightarrow> n_tokens c = length (split_ws (text_chunk c))"
  by (auto simp: size_flush_def Let_def split: if_splits)

lemma process_paragraph_tokens:
  "c \<in> set (fst (process_paragraph config i st p)) \<Longrightarrow> n_tokens c = length (split_ws (text_chunk c))"
  by (auto simp: process_paragraph_def Let_def dest: size_flush_tokens split: option.splits if_splits)

lemma process_paragraphs_tokens:
  "c \<in> set (fst (process_paragraphs config i st ps)) \<Longrightarrow> n_tokens c = length (split_ws (text_chunk c))"
proof (induction ps arbitrary: st)
  case Nil
  then show ?case by simp
next
  case (Cons p ps)
  obtain out1 st1 where s1: "process_paragraph config i st p = (out1, st1)"
    by (cases "process_paragraph config i st p")
  obtain out2 st2 where s2: "process_paragraphs config i st1 ps = (out2, st2)"
    by (cases "process_paragraphs config i st1 ps")
  from Cons.prems s1 s2 have "c \<in> set out1 \<or> c \<in> set out2"
    by simp
  then show ?case
  proof
    assume "c \<in> set out1"
    with s1 show ?thesis using process_paragraph_tokens [of c config i st p] by simp
  next
    assume "c \<in> set out2"
    with s2 show ?thesis using Cons.IH [of st1] by simp
  qed
qed

lemma final_flush_tokens:
  "c \<in> set (final_flush i st) \<Longrightarrow> n_tokens c = length (split_ws (text_chunk c))"
  by (auto simp: final_flush_def Let_def split: if_splits)

lemma document_chunks_tokens:
  "c \<in> set (document_chunks config i text) \<Longrightarrow> n_tokens c = length (split_ws (text_chunk c))"
proof -
  obtain out st where r: "process_paragraphs config i initial_state (split_paragraphs text) = (out, st)"
    by (cases "process_paragraphs config i initial_state (split_paragraphs text)")
  assume "c \<in> set (document_chunks config i text)"
  with r have "c \<in> set out \<or> c \<in> set (final_flush i st)"
    by (simp add: document_chunks_def)
  then show ?thesis
    using r process_paragraphs_tokens [of c config i initial_state "split_paragraphs text"]
      final_flush_tokens [of c i st] by auto
qed

lemma yielded_run_documents_tokens:
  "c \<in> set (yielded (run_documents config i docs)) \<Longrightarrow> n_tokens c = length (split_ws (text_chunk c))"
  by (induction docs arbitrary: i)
     (auto simp: yielded_append yielded_map_Yield dest: document_chunks_tokens split: if_splits)

text \<open>
  Claim C5. The token estimate of every emitted chunk is the number of
  whitespace-delimited words of the text of that chunk, header prefix included.
\<close>

theorem token_estimate_recomputed:
  "\<forall>c \<in> set (yielded (run_markdown input config)). n_tokens c = length (split_ws (text_chunk c))"
  by (auto simp: run_markdown_def dest: yielded_run_documents_tokens)

theorem token_estimate_recomputed_witness:
  "\<lparr>text_chunk = ''# T\<newline>\<newline>a b'', source_doc_indices = [0], n_tokens = 4\<rparr>
     \<in> set (yielded (run_markdown [''# T\<newline>\<newline>a b''] \<lparr>size_cfg = 3, overlap = 0\<rparr>)) \<and>
   n_tokens \<lparr>text_chunk = ''# T\<newline>\<newline>a b'', source_doc_indices = [0], n_tokens = 4\<rparr>
     = length (split_ws (text_chunk
         \<lparr>text_chunk = ''# T\<newline>\<newline>a b'', source_doc_indices = [0], n_tokens = 4\<rparr>))"
proof -
  have h: "\<lparr>text_chunk = ''# T\<newline>\<newline>a b'', source_doc_indices = [0], n_tokens = 4\<rparr>
     \<in> set (yielded (run_markdown [''# T\<newline>\<newline>a b''] \<lparr>size_cfg = 3, overlap = 0\<rparr>))"
    by code_simp
  from token_estimate_recomputed [rule_format, OF h] h show ?thesis
    by (rule_tac conjI)
qed

section \<open>The overlap setting\<close>

lemma size_flush_overlap: "size_flush (config\<lparr>overlap := ov\<rparr>) i st = size_flush config i st"
  by (simp add: size_flush_def)

lemma process_paragraph_overlap:
  "process_paragraph (config\<lparr>overlap := ov\<rparr>) i st p = process_paragraph config i st p"
  by (simp add: process_paragraph_def size_flush_overlap Let_def split: option.splits)

lemma process_paragraphs_overlap:
  "process_paragraphs (config\<lparr>overlap := ov\<rparr>) i st ps = process_paragraphs config i st ps"
  by (induction ps arbitrary: st) (simp_all add: process_paragraph_overlap)

lemma run_documents_overlap:
  "run_documents (config\<lparr>overlap := ov\<rparr>) i docs = run_documents config i docs"
  by (induction docs arbitrary: i) (simp_all add: document_chunks_def process_paragraphs_overlap)

text \<open>
  Claim C6. Two configurations that differ in the overlap field only give the same
  sequence of events, so the same chunks with the same texts, document indices and
  token estimates, for every input and every size.
\<close>

theorem overlap_inert:
  "run_markdown input (config\<lparr>overlap := ov1\<rparr>) = run_markdown input (config\<lparr>overlap := ov2\<rparr>)"
  by (simp add: run_markdown_def run_documents_overlap)

section \<open>Progress accounting\<close>

lemma run_documents_per_document:
  "run_documents config i docs =
     concat (map (\<lambda>(doc_idx, text).
                    map Yield (if text = [] then [] else document_chunks config doc_idx text) @ [Tick 1])
                 (enumerate i docs))"
  by (induction docs arbitrary: i) simp_all

lemma ticks_run_documents: "ticks (run_documents config i docs) = replicate (length docs) 1"
  by (induction docs arbitrary: i) (simp_all add: ticks_append ticks_map_Yield)

text \<open>
  Claim C7. Consuming the whole sequence calls \<^verbatim>\<open>tick\<close> once for every document, after
  the chunks of that document, however many chunks the document gives; an empty
  document gives no chunk and one tick.
\<close>

theorem tick_once_per_document:
  "ticks (run_markdown input config) = replicate (length input) 1 \<and>
   run_markdown input config =
     concat (map (\<lambda>(doc_idx, text).
                    map Yield (if text = [] then [] else document_chunks config doc_idx text) @ [Tick 1])
                 (enumerate 0 input))"
proof
  show "ticks (run_markdown input config) = replicate (length input) 1"
    by (simp only: run_markdown_def ticks_run_documents)
  show "run_markdown input config =
     concat (map (\<lambda>(doc_idx, text).
                    map Yield (if text = [] then [] else document_chunks config doc_idx text) @ [Tick 1])
                 (enumerate 0 input))"
    by (simp only: run_markdown_def run_documents_per_document)
qed

section \<open>A header paragraph\<close>

text \<open>
  Claim C9. At a header paragraph of level \<open>L\<close> a chunk is flushed exactly when there
  are pending paragraphs and the active level is 0 or at least \<open>L\<close>. Its text is the
  active header, a blank line and the pending paragraphs joined by blank lines when the
  active header is not empty, and the joined pending paragraphs alone otherwise. The
  pending paragraphs are then empty, and in both cases the paragraph becomes the active
  header, with level \<open>L\<close>.
\<close>

theorem header_paragraph_step:
  assumes "header_pattern (strip paragraph) = Some L"
  shows "process_paragraph config doc_idx st paragraph =
           (if current_chunk st \<noteq> [] \<and> (current_header_level st = 0 \<or> L \<le> current_header_level st)
            then ([\<lparr>text_chunk =
                      (if current_header st \<noteq> []
                       then current_header st @ [NL, NL] @ join_paragraphs (current_chunk st)
                       else join_paragraphs (current_chunk st)),
                     source_doc_indices = [doc_idx],
                     n_tokens = length (split_ws
                       (if current_header st \<noteq> []
                        then current_header st @ [NL, NL] @ join_paragraphs (current_chunk st)
                        else join_paragraphs (current_chunk st)))\<rparr>],
                  \<lparr>current_chunk = [], current_header_level = L, current_header = paragraph\<rparr>)
            else ([], \<lparr>current_chunk = current_chunk st, current_header_level = L,
                       current_header = paragraph\<rparr>))"
  using assms by (auto simp: process_paragraph_def header_flush_text_def Let_def)

theorem header_paragraph_step_witness:
  "header_pattern (strip ''## B'') = Some 2 \<and>
   process_paragraph \<lparr>size_cfg = 3, overlap = 0\<rparr> 0
       \<lparr>current_chunk = [''x''], current_header_level = 2, current_header = ''## A''\<rparr> ''## B'' =
     ([\<lparr>text_chunk = ''## A\<newline>\<newline>x'', source_doc_indices = [0], n_tokens = 3\<rparr>],
      \<lparr>current_chunk = [], current_header_level = 2, current_header = ''## B''\<rparr>)"
proof -
  have h: "header_pattern (strip ''## B'') = Some 2"
    by code_simp
  have w: "length (split_ws ''## A\<newline>\<newline>x'') = 3"
    by code_simp
  from header_paragraph_step [OF h, of "\<lparr>size_cfg = 3, overlap = 0\<rparr>" 0
      "\<lparr>current_chunk = [''x''], current_header_level = 2, current_header = ''## A''\<rparr>"]
  show ?thesis using h w by simp
qed

section \<open>Documents of whitespace\<close>

lemma strip_whitespace: "\<forall>c \<in> set s. isspace c \<Longrightarrow> strip s = []"
proof -
  assume "\<forall>c \<in> set s. isspace c"
  then have "dropWhile isspace s = []"
    by (induction s) simp_all
  then show ?thesis
    by (simp only: strip_def rev.simps dropWhile.simps)
qed

lemma header_pattern_Nil: "header_pattern [] = None"
  by (simp add: header_pattern_def rx_rep_counts_def)

lemma split_paragraphs_not_Nil: "split_paragraphs s \<noteq> []"
  by (induction s rule: split_paragraphs.induct) (auto split: list.splits)

lemma set_split_paragraphs: "p \<in> set (split_paragraphs s) \<Longrightarrow> set p \<subseteq> set s"
proof (induction s arbitrary: p rule: split_paragraphs.induct)
  case 1
  then show ?case by simp
next
  case (2 c)
  then show ?case by simp
next
  case (3 a b cs)
  show ?case
  proof (cases "a = NL \<and> b = NL")
    case True
    with 3 show ?thesis by fastforce
  next
    case False
    obtain q qs where q: "split_paragraphs (b # cs) = q # qs"
      using split_paragraphs_not_Nil [of "b # cs"] by (cases "split_paragraphs (b # cs)") auto
    with False "3.prems" have "p = a # q \<or> p \<in> set qs"
      by auto
    moreover have "set q \<subseteq> set (b # cs)" and "\<forall>r \<in> set qs. set r \<subseteq> set (b # cs)"
      using "3.IH"(2) [OF False] q by simp_all
    ultimately show ?thesis by auto
  qed
qed

lemma join_paragraphs_Cons_Cons: "join_paragraphs ((a # p) # ps) = a # join_paragraphs (p # ps)"
  by (cases ps) simp_all

lemma join_split_paragraphs: "join_paragraphs (split_paragraphs s) = s"
proof (induction s rule: split_paragraphs.induct)
  case 1
  show ?case by simp
next
  case (2 c)
  show ?case by simp
next
  case (3 a b cs)
  show ?case
  proof (cases "a = NL \<and> b = NL")
    case True
    obtain q qs where q: "split_paragraphs cs = q # qs"
      using split_paragraphs_not_Nil [of cs] by (cases "split_paragraphs cs") auto
    with True 3 show ?thesis by simp
  next
    case False
    obtain q qs where q: "split_paragraphs (b # cs) = q # qs"
      using split_paragraphs_not_Nil [of "b # cs"] by (cases "split_paragraphs (b # cs)") auto
    from False have "split_paragraphs (a # b # cs) = (a # q) # qs"
      using q by auto
    moreover from False 3 q have "join_paragraphs (q # qs) = b # cs"
      by auto
    ultimately show ?thesis
      by (simp only: join_paragraphs_Cons_Cons)
  qed
qed

lemma split_ws_from_whitespace: "\<forall>c \<in> set s. isspace c \<Longrightarrow> split_ws_from [] s = []"
  by (induction s) simp_all

lemma split_ws_whitespace: "\<forall>c \<in> set s. isspace c \<Longrightarrow> split_ws s = []"
  by (simp add: split_ws_def split_ws_from_whitespace)

lemma join_paragraphs_whitespace:
  "\<forall>p \<in> set ps. \<forall>c \<in> set p. isspace c \<Longrightarrow> \<forall>c \<in> set (join_paragraphs ps). isspace c"
  by (induction ps rule: join_paragraphs.induct) (auto simp: isspace_NL)

lemma process_paragraph_whitespace:
  assumes "\<forall>c \<in> set p. isspace c" and "\<forall>q \<in> set (current_chunk st). \<forall>c \<in> set q. isspace c"
    and "current_header st = []" and "0 \<le> size_cfg config"
  shows "process_paragraph config i st p = ([], st\<lparr>current_chunk := current_chunk st @ [p]\<rparr>)"
proof -
  have "\<forall>c \<in> set (join_paragraphs (current_chunk st @ [p])). isspace c"
    using assms(1,2) by (intro join_paragraphs_whitespace) auto
  then have "split_ws (join_paragraphs (current_chunk st @ [p])) = []"
    by (rule split_ws_whitespace)
  then have "size_flush config i (st\<lparr>current_chunk := current_chunk st @ [p]\<rparr>)
      = ([], st\<lparr>current_chunk := current_chunk st @ [p]\<rparr>)"
    using assms(4) by (simp add: size_flush_def)
  then show ?thesis
    using assms(1,3) by (simp add: process_paragraph_def strip_whitespace header_pattern_Nil Let_def)
qed

lemma process_paragraphs_whitespace:
  assumes "\<forall>p \<in> set ps. \<forall>c \<in> set p. isspace c"
    and "\<forall>q \<in> set (current_chunk st). \<forall>c \<in> set q. isspace c"
    and "current_header st = []" and "0 \<le> size_cfg config"
  shows "process_paragraphs config i st ps = ([], st\<lparr>current_chunk := current_chunk st @ ps\<rparr>)"
  using assms
proof (induction ps arbitrary: st)
  case Nil
  then show ?case by simp
next
  case (Cons p ps)
  have s1: "process_paragraph config i st p = ([], st\<lparr>current_chunk := current_chunk st @ [p]\<rparr>)"
    using Cons.prems by (intro process_paragraph_whitespace) auto
  have "process_paragraphs config i (st\<lparr>current_chunk := current_chunk st @ [p]\<rparr>) ps
      = ([], st\<lparr>current_chunk := current_chunk st @ [p]\<rparr>
               \<lparr>current_chunk := current_chunk (st\<lparr>current_chunk := current_chunk st @ [p]\<rparr>) @ ps\<rparr>)"
    using Cons.prems by (intro Cons.IH) auto
  with s1 show ?case by simp
qed

text \<open>
  Claim C10. For a size that is not negative, a document that is not empty and consists of
  whitespace characters only gives exactly one chunk: its text is the paragraphs of the
  document joined again by blank lines, which is the document itself, and its token
  estimate is 0. The empty document gives no chunk, only its tick.
\<close>

theorem whitespace_document_one_chunk:
  assumes "text \<noteq> []" and "\<forall>c \<in> set text. isspace c" and "0 \<le> size_cfg config"
  shows "run_markdown [text] config =
           [Yield \<lparr>text_chunk = join_paragraphs (split_paragraphs text),
                    source_doc_indices = [0], n_tokens = 0\<rparr>,
            Tick 1] \<and>
         join_paragraphs (split_paragraphs text) = text \<and>
         run_markdown [[]] config = [Tick 1]"
proof -
  have ws: "\<forall>p \<in> set (split_paragraphs text). \<forall>c \<in> set p. isspace c"
    using assms(2) set_split_paragraphs by blast
  have loop: "process_paragraphs config 0 initial_state (split_paragraphs text)
      = ([], initial_state\<lparr>current_chunk := split_paragraphs text\<rparr>)"
    using process_paragraphs_whitespace [OF ws, of initial_state config 0] assms(3)
    by (simp add: initial_state_def)
  have "split_ws (join_paragraphs (split_paragraphs text)) = []"
    using ws by (intro split_ws_whitespace join_paragraphs_whitespace)
  then have "document_chunks config 0 text =
      [\<lparr>text_chunk = join_paragraphs (split_paragraphs text), source_doc_indices = [0], n_tokens = 0\<rparr>]"
    using loop split_paragraphs_not_Nil [of "text"]
    by (simp add: document_chunks_def final_flush_def initial_state_def)
  then show ?thesis
    using assms(1) by (simp add: run_markdown_def join_split_paragraphs)
qed

theorem whitespace_document_one_chunk_witness:
  "'' \<newline>\<newline> '' \<noteq> [] \<and> list_all isspace '' \<newline>\<newline> '' \<and>
   (0::int) \<le> size_cfg \<lparr>size_cfg = 3, overlap = 0\<rparr> \<and>
   run_markdown ['' \<newline>\<newline> ''] \<lparr>size_cfg = 3, overlap = 0\<rparr> =
     [Yield \<lparr>text_chunk = '' \<newline>\<newline> '', source_doc_indices = [0], n_tokens = 0\<rparr>, Tick 1]"
proof -
  have h1: "'' \<newline>\<newline> '' \<noteq> []" by simp
  have h2: "\<forall>c \<in> set '' \<newline>\<newline> ''. isspace c" by (simp add: isspace_def)
  have h3: "(0::int) \<le> size_cfg \<lparr>size_cfg = 3, overlap = 0\<rparr>" by simp
  from whitespace_document_one_chunk [OF h1 h2 h3] show ?thesis
    using h2 by (simp add: list_all_iff)
qed

section \<open>Header paragraphs\<close>

lemma set_rx_plus: "set (rx_plus P s) = (\<lambda>m. drop m s) ` {1 .. length (takeWhile P s)}"
proof -
  have "min (length s) (length (takeWhile P s)) = length (takeWhile P s)"
    using length_takeWhile_le [of P s] by simp
  then show ?thesis
    by (auto simp: rx_plus_def rx_rep_counts_def)
qed

lemma rx_seq_matches: "rx_seq f g s \<noteq> [] \<longleftrightarrow> (\<exists>r \<in> set (f s). g r \<noteq> [])"
  by (auto simp: rx_seq_def)

lemma takeWhile_pos: "Suc 0 \<le> length (takeWhile P s) \<longleftrightarrow> s \<noteq> [] \<and> P (hd s)"
  by (cases s) auto

lemma rx_eol_matches: "rx_eol_multiline t \<noteq> [] \<longleftrightarrow> t = [] \<or> hd t = NL"
  by (cases t) (simp_all add: rx_eol_multiline_def)

lemma rx_eol_dropWhile_dot: "rx_eol_multiline (dropWhile dot r) \<noteq> []"
  using hd_dropWhile [of dot r] unfolding rx_eol_matches dot_def by blast

lemma text_matches: "rx_seq (rx_plus dot) rx_eol_multiline r \<noteq> [] \<longleftrightarrow> r \<noteq> [] \<and> hd r \<noteq> NL"
proof
  assume "rx_seq (rx_plus dot) rx_eol_multiline r \<noteq> []"
  then have "1 \<le> length (takeWhile dot r)"
    by (auto simp: rx_seq_matches set_rx_plus)
  then show "r \<noteq> [] \<and> hd r \<noteq> NL"
    by (simp add: takeWhile_pos dot_def)
next
  assume "r \<noteq> [] \<and> hd r \<noteq> NL"
  then have "1 \<le> length (takeWhile dot r)"
    by (simp add: takeWhile_pos dot_def)
  then have "dropWhile dot r \<in> set (rx_plus dot r)"
    by (simp add: set_rx_plus dropWhile_eq_drop)
  then show "rx_seq (rx_plus dot) rx_eol_multiline r \<noteq> []"
    using rx_eol_dropWhile_dot [of r] by (auto simp: rx_seq_matches)
qed

lemma header_rest_matches:
  "header_rest r \<noteq> [] \<longleftrightarrow>
     (\<exists>m \<in> {1 .. length (takeWhile isspace r)}. drop m r \<noteq> [] \<and> hd (drop m r) \<noteq> NL)"
  by (simp add: rx_seq_matches [of "rx_plus isspace"] set_rx_plus text_matches)

lemma header_rest_starts_with_space:
  assumes "header_rest r \<noteq> []"
  shows "r \<noteq> [] \<and> isspace (hd r)"
proof -
  from assms have "1 \<le> length (takeWhile isspace r)"
    by (auto simp: header_rest_matches)
  then show ?thesis by (simp add: takeWhile_pos)
qed

lemma header_rest_trimmed:
  assumes "r \<noteq> []" and "isspace (hd r)" and "\<not> isspace (last r)"
  shows "header_rest r \<noteq> []"
proof -
  let ?w = "length (takeWhile isspace r)"
  have w: "1 \<le> ?w"
    using assms(1,2) by (simp add: takeWhile_pos)
  have "last r \<in> set r"
    using assms(1) by simp
  with assms(3) have ne: "dropWhile isspace r \<noteq> []"
    by (auto simp: dropWhile_eq_Nil_conv)
  then have "\<not> isspace (hd (dropWhile isspace r))"
    by (rule hd_dropWhile)
  then have "hd (dropWhile isspace r) \<noteq> NL"
    using isspace_NL by auto
  with ne have "drop ?w r \<noteq> [] \<and> hd (drop ?w r) \<noteq> NL"
    by (simp add: dropWhile_eq_drop)
  with w show ?thesis
    unfolding header_rest_matches by (intro bexI [of _ ?w]) auto
qed

lemma hashes_then_hash:
  assumes "j < length (takeWhile (\<lambda>c. c = CHR ''#'') s)"
  shows "drop j s \<noteq> [] \<and> hd (drop j s) = CHR ''#''"
proof -
  let ?t = "takeWhile (\<lambda>c. c = CHR ''#'') s"
  have "j < length s"
    using assms length_takeWhile_le [of "\<lambda>c. c = CHR ''#''" s] by simp
  moreover have "s ! j = ?t ! j"
    using assms by (simp add: takeWhile_nth)
  moreover have "?t ! j \<in> set ?t"
    using assms by simp
  then have "?t ! j = CHR ''#''"
    by (auto dest: set_takeWhileD)
  ultimately show ?thesis
    by (simp add: hd_drop_conv_nth)
qed

lemma header_candidate:
  assumes "j \<in> set (rx_rep_counts (\<lambda>c. c = CHR ''#'') 1 6 s)" and "header_rest (drop j s) \<noteq> []"
  shows "j = length (takeWhile (\<lambda>c. c = CHR ''#'') s) \<and> 1 \<le> j \<and> j \<le> 6"
proof -
  let ?h = "length (takeWhile (\<lambda>c. c = CHR ''#'') s)"
  from assms(1) have b: "1 \<le> j" "j \<le> 6" "j \<le> ?h"
    by (auto simp: rx_rep_counts_def)
  have "\<not> j < ?h"
  proof
    assume "j < ?h"
    then have "hd (drop j s) = CHR ''#''"
      using hashes_then_hash by simp
    moreover have "isspace (hd (drop j s))"
      using header_rest_starts_with_space [OF assms(2)] by simp
    ultimately show False by (simp add: isspace_def)
  qed
  with b show ?thesis by simp
qed

lemma header_pattern_Some:
  "header_pattern s = Some k \<longleftrightarrow>
     1 \<le> k \<and> k \<le> 6 \<and> length (takeWhile (\<lambda>c. c = CHR ''#'') s) = k \<and> header_rest (drop k s) \<noteq> []"
proof
  let ?c = "rx_rep_counts (\<lambda>c. c = CHR ''#'') 1 6 s"
  let ?f = "filter (\<lambda>j. header_rest (drop j s) \<noteq> []) ?c"
  assume "header_pattern s = Some k"
  then obtain js where "?f = k # js"
    by (auto simp: header_pattern_def split: list.splits)
  then have "k \<in> set ?f"
    by simp
  then have "k \<in> set ?c" and "header_rest (drop k s) \<noteq> []"
    by simp_all
  then show "1 \<le> k \<and> k \<le> 6 \<and> length (takeWhile (\<lambda>c. c = CHR ''#'') s) = k \<and> header_rest (drop k s) \<noteq> []"
    using header_candidate [of k s] by simp
next
  let ?c = "rx_rep_counts (\<lambda>c. c = CHR ''#'') 1 6 s"
  let ?f = "filter (\<lambda>j. header_rest (drop j s) \<noteq> []) ?c"
  assume a: "1 \<le> k \<and> k \<le> 6 \<and> length (takeWhile (\<lambda>c. c = CHR ''#'') s) = k \<and> header_rest (drop k s) \<noteq> []"
  then have "k \<in> set ?c"
    by (auto simp: rx_rep_counts_def)
  with a have "k \<in> set ?f"
    by simp
  then obtain j js where f: "?f = j # js"
    by (cases ?f) (auto simp: filter_empty_conv)
  then have "j \<in> set ?f"
    by simp
  then have "j \<in> set ?c" and "header_rest (drop j s) \<noteq> []"
    by simp_all
  then have "j = k"
    using header_candidate [of j s] a by simp
  with f show "header_pattern s = Some k"
    by (simp add: header_pattern_def)
qed

lemma strip_last: "strip s \<noteq> [] \<Longrightarrow> \<not> isspace (last (strip s))"
proof -
  assume a: "strip s \<noteq> []"
  let ?t = "dropWhile isspace (rev (dropWhile isspace s))"
  from a have ne: "?t \<noteq> []"
    by (simp add: strip_def)
  then have "\<not> isspace (hd ?t)"
    by (rule hd_dropWhile)
  moreover have "last (strip s) = hd ?t"
    using ne by (simp add: strip_def last_rev)
  ultimately show ?thesis by simp
qed

text \<open>
  Claim C3, as the code has it. A paragraph is classified and processed as a header of
  level \<open>k\<close> exactly when its trimmed text starts with exactly \<open>k\<close> characters \<^verbatim>\<open>#\<close>,
  \<open>k\<close> from 1 to 6, followed by a whitespace character. Every paragraph whose trimmed
  text is one ATX header line is so classified; so is a paragraph that carries further
  lines after such a start, because \<^verbatim>\<open>$\<close> matches at the end of the first line.
\<close>

theorem header_classification:
  "(header_pattern (strip paragraph) = Some k \<longleftrightarrow>
      1 \<le> k \<and> k \<le> 6 \<and>
      length (takeWhile (\<lambda>c. c = CHR ''#'') (strip paragraph)) = k \<and>
      k < length (strip paragraph) \<and> isspace (strip paragraph ! k)) \<and>
   (spec_atx_header_line (strip paragraph) \<longrightarrow> header_pattern (strip paragraph) \<noteq> None)"
proof
  let ?s = "strip paragraph"
  have "header_rest (drop k ?s) \<noteq> [] \<longleftrightarrow> k < length ?s \<and> isspace (?s ! k)"
  proof
    assume "header_rest (drop k ?s) \<noteq> []"
    then show "k < length ?s \<and> isspace (?s ! k)"
      using header_rest_starts_with_space [of "drop k ?s"] by (auto simp: hd_drop_conv_nth)
  next
    assume a: "k < length ?s \<and> isspace (?s ! k)"
    then have "?s \<noteq> []" by auto
    then have "\<not> isspace (last ?s)"
      by (rule strip_last)
    with a show "header_rest (drop k ?s) \<noteq> []"
      by (intro header_rest_trimmed) (auto simp: hd_drop_conv_nth)
  qed
  then show "header_pattern ?s = Some k \<longleftrightarrow>
      1 \<le> k \<and> k \<le> 6 \<and> length (takeWhile (\<lambda>c. c = CHR ''#'') ?s) = k \<and>
      k < length ?s \<and> isspace (?s ! k)"
    by (simp only: header_pattern_Some)
next
  let ?s = "strip paragraph"
  show "spec_atx_header_line ?s \<longrightarrow> header_pattern ?s \<noteq> None"
  proof
    assume a: "spec_atx_header_line ?s"
    let ?k = "length (takeWhile (\<lambda>c. c = CHR ''#'') ?s)"
    let ?r = "drop ?k ?s"
    let ?w = "length (takeWhile isspace ?r)"
    from a have b: "1 \<le> ?k" "?k \<le> 6" "1 \<le> ?w" "drop ?w ?r \<noteq> []" and nl: "NL \<notin> set ?s"
      unfolding spec_atx_header_line_def Let_def by blast+
    have "hd (drop ?w ?r) \<in> set ?s"
      using b(4) by (metis hd_in_set in_set_dropD)
    with nl have "hd (drop ?w ?r) \<noteq> NL"
      by auto
    with b have "header_rest ?r \<noteq> []"
      unfolding header_rest_matches by (intro bexI [of _ ?w]) auto
    with b have "header_pattern ?s = Some ?k"
      by (simp only: header_pattern_Some) simp
    then show "header_pattern ?s \<noteq> None"
      by simp
  qed
qed

theorem header_classification_counterexample:
  "header_pattern (strip ''# Title\<newline>Body text'') = Some 1 \<and>
   \<not> spec_atx_header_line (strip ''# Title\<newline>Body text'')"
  by code_simp

theorem header_classification_witness:
  "spec_atx_header_line (strip '' ## Results '') \<and> header_pattern (strip '' ## Results '') = Some 2"
proof -
  have h: "spec_atx_header_line (strip '' ## Results '')"
    by code_simp
  have e: "header_pattern (strip '' ## Results '') \<noteq> None \<longrightarrow> header_pattern (strip '' ## Results '') = Some 2"
    by code_simp
  from header_classification [of "'' ## Results ''" 2] h e show ?thesis
    by blast
qed

section \<open>The size threshold\<close>

lemma size_flush_pending:
  assumes "0 \<le> size_cfg config"
  shows "int (pending_words (snd (size_flush config i st))) \<le> size_cfg config"
  using assms by (simp add: size_flush_def pending_words_def Let_def split_ws_def)

lemma size_flush_over:
  "c \<in> set (fst (size_flush config i st)) \<Longrightarrow> size_cfg config < int (n_tokens c)"
  by (auto simp: size_flush_def Let_def split: if_splits)

lemma process_paragraph_pending:
  assumes "0 \<le> size_cfg config" and "int (pending_words st) \<le> size_cfg config"
  shows "int (pending_words (snd (process_paragraph config i st p))) \<le> size_cfg config"
proof (cases "header_pattern (strip p)")
  case None
  then show ?thesis
    using size_flush_pending [OF assms(1)] by (simp add: process_paragraph_def Let_def)
next
  case (Some L)
  then show ?thesis
    using assms by (simp add: process_paragraph_def pending_words_def split_ws_def)
qed

lemma process_paragraphs_pending:
  assumes "0 \<le> size_cfg config" and "int (pending_words st) \<le> size_cfg config"
  shows "int (pending_words (snd (process_paragraphs config i st ps))) \<le> size_cfg config"
  using assms(2)
proof (induction ps arbitrary: st)
  case Nil
  then show ?case by simp
next
  case (Cons p ps)
  have "int (pending_words (snd (process_paragraph config i st p))) \<le> size_cfg config"
    using assms(1) Cons.prems by (rule process_paragraph_pending)
  then have "int (pending_words (snd (process_paragraphs config i
      (snd (process_paragraph config i st p)) ps))) \<le> size_cfg config"
    by (rule Cons.IH)
  then show ?case
    by (simp add: split_beta)
qed

lemma header_flush_words:
  "length (split_ws (header_flush_text st)) \<le> pending_words st + length (split_ws (current_header st))"
  by (simp add: header_flush_text_def pending_words_def Let_def word_count_prefixed)

lemma process_paragraph_header_bound:
  assumes "header_pattern (strip p) \<noteq> None" and "int (pending_words st) \<le> size_cfg config"
    and "c \<in> set (fst (process_paragraph config i st p))"
  shows "int (n_tokens c) \<le> size_cfg config + int (length (split_ws (current_header st)))"
proof -
  from assms(1,3) have "n_tokens c = length (split_ws (header_flush_text st))"
    by (auto simp: process_paragraph_def split: if_splits)
  then show ?thesis
    using header_flush_words [of st] assms(2) by simp
qed

lemma process_paragraph_size_bound:
  assumes "header_pattern (strip p) = None" and "c \<in> set (fst (process_paragraph config i st p))"
  shows "size_cfg config < int (n_tokens c)"
  using assms by (auto simp: process_paragraph_def Let_def dest: size_flush_over split: if_splits)

lemma final_flush_bound:
  assumes "int (pending_words st) \<le> size_cfg config" and "c \<in> set (final_flush i st)"
  shows "int (n_tokens c) \<le> size_cfg config + int (length (split_ws (current_header st)))"
  using assms
  by (auto simp: final_flush_def Let_def pending_words_def word_count_prefixed split: if_splits)

text \<open>
  Claim C2, as the code has it. For a size that is not negative, the pending paragraphs
  hold at most \<open>max_size\<close> words between two paragraphs. A chunk emitted at a paragraph
  that is not a header, plain or with a table or an image, is emitted by the size check
  and has a token estimate above \<open>max_size\<close>. A chunk emitted at a header paragraph or
  at the end of the document has a token estimate of at most \<open>max_size\<close> plus the
  number of words of the active header.
\<close>

theorem size_threshold:
  assumes "0 \<le> size_cfg config"
    and "st = snd (process_paragraphs config doc_idx initial_state pre)"
  shows "int (length (split_ws (join_paragraphs (current_chunk st)))) \<le> size_cfg config \<and>
         (\<forall>c \<in> set (fst (process_paragraph config doc_idx st paragraph)).
            if header_pattern (strip paragraph) = None
            then size_cfg config < int (n_tokens c)
            else int (n_tokens c) \<le> size_cfg config + int (length (split_ws (current_header st)))) \<and>
         (\<forall>c \<in> set (final_flush doc_idx st).
            int (n_tokens c) \<le> size_cfg config + int (length (split_ws (current_header st))))"
proof -
  have "int (pending_words initial_state) \<le> size_cfg config"
    using assms(1) by (simp add: pending_words_def initial_state_def split_ws_def)
  then have inv: "int (pending_words st) \<le> size_cfg config"
    unfolding assms(2) by (rule process_paragraphs_pending [OF assms(1)])
  show ?thesis
  proof (intro conjI ballI)
    show "int (length (split_ws (join_paragraphs (current_chunk st)))) \<le> size_cfg config"
      using inv by (simp add: pending_words_def)
  next
    fix c
    assume "c \<in> set (fst (process_paragraph config doc_idx st paragraph))"
    then show "if header_pattern (strip paragraph) = None
            then size_cfg config < int (n_tokens c)
            else int (n_tokens c) \<le> size_cfg config + int (length (split_ws (current_header st)))"
      using process_paragraph_size_bound [of "paragraph" c config doc_idx st]
        process_paragraph_header_bound [of "paragraph" st config c doc_idx] inv
      by simp
  next
    fix c
    assume "c \<in> set (final_flush doc_idx st)"
    then show "int (n_tokens c) \<le> size_cfg config + int (length (split_ws (current_header st)))"
      using inv by (rule final_flush_bound [rotated])
  qed
qed

theorem size_threshold_counterexample:
  "\<not> rx_search table_pattern ''a b c d'' \<and> \<not> rx_search image_pattern ''a b c d'' \<and>
   map n_tokens (yielded (run_markdown [''a b c d''] \<lparr>size_cfg = 3, overlap = 0\<rparr>)) = [4] \<and>
   map text_chunk (yielded (run_markdown [''a b c d''] \<lparr>size_cfg = 3, overlap = 0\<rparr>)) = [''a b c d'']"
  by code_simp

theorem size_threshold_witness:
  "(0::int) \<le> size_cfg \<lparr>size_cfg = 3, overlap = 0\<rparr> \<and>
   \<lparr>text_chunk = ''a b\<newline>\<newline>c d e'', source_doc_indices = [0], n_tokens = 5\<rparr>
     \<in> set (fst (process_paragraph \<lparr>size_cfg = 3, overlap = 0\<rparr> 0
         (snd (process_paragraphs \<lparr>size_cfg = 3, overlap = 0\<rparr> 0 initial_state [''# T'', ''a b'']))
         ''c d e'')) \<and>
   header_pattern (strip ''c d e'') = None \<and>
   size_cfg \<lparr>size_cfg = 3, overlap = 0\<rparr>
     < int (n_tokens \<lparr>text_chunk = ''a b\<newline>\<newline>c d e'', source_doc_indices = [0], n_tokens = 5\<rparr>)"
proof -
  have h1: "(0::int) \<le> size_cfg \<lparr>size_cfg = 3, overlap = 0\<rparr>"
    by simp
  have h2: "\<lparr>text_chunk = ''a b\<newline>\<newline>c d e'', source_doc_indices = [0], n_tokens = 5\<rparr>
     \<in> set (fst (process_paragraph \<lparr>size_cfg = 3, overlap = 0\<rparr> 0
         (snd (process_paragraphs \<lparr>size_cfg = 3, overlap = 0\<rparr> 0 initial_state [''# T'', ''a b'']))
         ''c d e''))"
    by code_simp
  have h3: "header_pattern (strip ''c d e'') = None"
    by code_simp
  from size_threshold [OF h1 refl, of 0 "[''# T'', ''a b'']" "''c d e''"] h2 h3
  have "size_cfg \<lparr>size_cfg = 3, overlap = 0\<rparr>
     < int (n_tokens \<lparr>text_chunk = ''a b\<newline>\<newline>c d e'', source_doc_indices = [0], n_tokens = 5\<rparr>)"
    by (auto simp only: if_True)
  with h1 h2 h3 show ?thesis
    by (intro conjI)
qed

section \<open>The paragraphs of the chunks\<close>

lemma appended_append: "appended (xs @ ys) = appended xs @ appended ys"
  by (simp add: appended_def)

lemma carries_pending:
  assumes "pending_shape hs st" and "current_chunk st \<noteq> []" and "h \<in> set ([] # hs)"
  shows "carries hs (prefixed h (join_paragraphs (current_chunk st))) (appended (current_chunk st))"
proof -
  let ?seed = "filter is_header (current_chunk st)"
  from assms(1) have s: "?seed \<in> set (seeds hs)"
    and c: "current_chunk st = ?seed @ appended (current_chunk st)"
    and n: "current_chunk st = [] \<or> appended (current_chunk st) \<noteq> []"
    by (simp_all only: pending_shape_def pending_form_def)
  from n assms(2) have "appended (current_chunk st) \<noteq> []"
    by blast
  moreover have "prefixed h (join_paragraphs (current_chunk st))
      = prefixed h (join_paragraphs (?seed @ appended (current_chunk st)))"
    using c by simp
  ultimately show ?thesis
    unfolding carries_def using assms(3) s by blast
qed

lemma pending_shape_append:
  assumes "pending_form hs st" and "\<not> is_header p"
  shows "pending_shape hs (st\<lparr>current_chunk := current_chunk st @ [p]\<rparr>)"
proof -
  let ?cc = "current_chunk st"
  from assms(1) have c: "?cc = filter is_header ?cc @ appended ?cc"
    and h: "current_header st \<in> set ([] # hs)" and s: "filter is_header ?cc \<in> set (seeds hs)"
    by (simp_all only: pending_form_def)
  have f: "filter is_header (?cc @ [p]) = filter is_header ?cc"
    using assms(2) by simp
  have a: "appended (?cc @ [p]) = appended ?cc @ [p]"
    using assms(2) by (simp add: appended_def)
  have "?cc @ [p] = filter is_header (?cc @ [p]) @ appended (?cc @ [p])"
    unfolding f a using c by simp
  moreover have "appended (?cc @ [p]) \<noteq> []"
    unfolding a by simp
  ultimately show ?thesis
    using h s assms(2) unfolding pending_shape_def pending_form_def by simp
qed

lemma pending_shape_reset:
  assumes "pending_shape hs st"
  shows "pending_shape hs (st\<lparr>current_chunk := []\<rparr>)"
  using assms by (simp add: pending_shape_def pending_form_def seeds_def appended_def)

lemma pending_form_seeded:
  assumes "pending_shape hs st" and "current_chunk st = []" and "current_header st \<noteq> []"
    and "\<forall>h \<in> set hs. is_header h"
  shows "pending_form hs (st\<lparr>current_chunk := current_chunk st @ [current_header st],
                              current_header := []\<rparr>)
         \<and> appended (current_chunk st @ [current_header st]) = []"
proof -
  from assms(1,3) have "current_header st \<in> set hs"
    by (auto simp: pending_shape_def pending_form_def)
  with assms(4) have "is_header (current_header st)"
    by blast
  with \<open>current_header st \<in> set hs\<close> assms(2) show ?thesis
    by (auto simp: pending_form_def seeds_def appended_def)
qed

lemma size_flush_groups:
  assumes "pending_shape hs st" and "current_chunk st \<noteq> []"
  shows "\<exists>gs. list_all2 (carries hs) (map text_chunk (fst (size_flush config i st))) gs \<and>
     concat gs @ appended (current_chunk (snd (size_flush config i st))) = appended (current_chunk st) \<and>
     pending_shape hs (snd (size_flush config i st))"
proof (cases "int (length (split_ws (join_paragraphs (current_chunk st)))) > size_cfg config")
  case True
  have "carries hs (prefixed [] (join_paragraphs (current_chunk st))) (appended (current_chunk st))"
    using assms by (intro carries_pending) simp_all
  then have "carries hs (join_paragraphs (current_chunk st)) (appended (current_chunk st))"
    by (simp add: prefixed_def)
  with True pending_shape_reset [OF assms(1)] show ?thesis
    by (intro exI [of _ "[appended (current_chunk st)]"])
       (simp add: size_flush_def appended_def)
next
  case False
  with assms(1) show ?thesis
    by (intro exI [of _ "[]"]) (simp add: size_flush_def)
qed

lemma process_paragraph_groups:
  assumes "pending_shape hs st" and "\<forall>h \<in> set hs. is_header h" and "is_header p \<longrightarrow> p \<in> set hs"
  shows "\<exists>gs. list_all2 (carries hs) (map text_chunk (fst (process_paragraph config i st p))) gs \<and>
     concat gs @ appended (current_chunk (snd (process_paragraph config i st p)))
       = appended (current_chunk st) @ appended [p] \<and>
     pending_shape hs (snd (process_paragraph config i st p))"
proof (cases "header_pattern (strip p)")
  case (Some L)
  then have hp: "is_header p"
    by (simp add: is_header_def)
  with assms(3) have ph: "p \<in> set hs"
    by simp
  have ap: "appended [p] = []"
    using hp by (simp add: appended_def)
  show ?thesis
  proof (cases "current_chunk st \<noteq> [] \<and> (L \<le> current_header_level st \<or> current_header_level st = 0)")
    case True
    have h: "current_header st \<in> set ([] # hs)"
      using assms(1) by (simp only: pending_shape_def pending_form_def)
    have t: "header_flush_text st = prefixed (current_header st) (join_paragraphs (current_chunk st))"
      by (simp add: header_flush_text_def prefixed_def)
    have "carries hs (header_flush_text st) (appended (current_chunk st))"
      unfolding t using assms(1) True h by (intro carries_pending) simp_all
    moreover have "pending_shape hs (st\<lparr>current_chunk := [], current_header_level := L, current_header := p\<rparr>)"
      using ph by (simp add: pending_shape_def pending_form_def seeds_def appended_def)
    ultimately show ?thesis
      using Some True ap
      by (intro exI [of _ "[appended (current_chunk st)]"])
         (simp add: process_paragraph_def appended_def)
  next
    case False
    have "pending_shape hs (st\<lparr>current_header_level := L, current_header := p\<rparr>)"
      using assms(1) ph by (simp add: pending_shape_def pending_form_def)
    with Some False ap show ?thesis
      by (intro exI [of _ "[]"]) (auto simp: process_paragraph_def)
  qed
next
  case None
  then have np: "\<not> is_header p"
    by (simp add: is_header_def)
  have ap: "appended [p] = [p]"
    using np by (simp add: appended_def)
  define st1 where "st1 =
    (if (rx_search table_pattern p \<or> rx_search image_pattern p) \<and> current_chunk st = [] \<and> current_header st \<noteq> []
     then st\<lparr>current_chunk := current_chunk st @ [current_header st], current_header := []\<rparr> else st)"
  define st2 where "st2 = st1\<lparr>current_chunk := current_chunk st1 @ [p]\<rparr>"
  have step: "process_paragraph config i st p = size_flush config i st2"
    using None by (simp add: process_paragraph_def st1_def st2_def Let_def)
  have s1: "pending_form hs st1 \<and> appended (current_chunk st1) = appended (current_chunk st)"
  proof (cases "(rx_search table_pattern p \<or> rx_search image_pattern p) \<and> current_chunk st = [] \<and> current_header st \<noteq> []")
    case True
    then have "st1 = st\<lparr>current_chunk := current_chunk st @ [current_header st], current_header := []\<rparr>"
      by (simp add: st1_def)
    moreover from True have "appended (current_chunk st) = []"
      by (simp add: appended_def)
    ultimately show ?thesis
      using pending_form_seeded [OF assms(1) _ _ assms(2)] True by simp
  next
    case False
    then have "st1 = st"
      by (auto simp: st1_def)
    with assms(1) show ?thesis by (simp add: pending_shape_def)
  qed
  have s2: "pending_shape hs st2"
    unfolding st2_def using s1 np by (intro pending_shape_append) simp_all
  have a2: "appended (current_chunk st2) = appended (current_chunk st) @ [p]"
    using s1 np by (simp add: st2_def appended_def)
  have n2: "current_chunk st2 \<noteq> []"
    by (simp add: st2_def)
  obtain gs where gs:
    "list_all2 (carries hs) (map text_chunk (fst (size_flush config i st2))) gs"
    "concat gs @ appended (current_chunk (snd (size_flush config i st2))) = appended (current_chunk st2)"
    "pending_shape hs (snd (size_flush config i st2))"
    using size_flush_groups [OF s2 n2, of config i] by blast
  then show ?thesis
    unfolding step a2 ap by (intro exI [of _ gs]) simp
qed

lemma process_paragraphs_groups:
  assumes "pending_shape hs st" and "\<forall>h \<in> set hs. is_header h"
    and "\<forall>p \<in> set ps. is_header p \<longrightarrow> p \<in> set hs"
  shows "\<exists>gs. list_all2 (carries hs) (map text_chunk (fst (process_paragraphs config i st ps))) gs \<and>
     concat gs @ appended (current_chunk (snd (process_paragraphs config i st ps)))
       = appended (current_chunk st) @ appended ps \<and>
     pending_shape hs (snd (process_paragraphs config i st ps))"
  using assms(1,3)
proof (induction ps arbitrary: st)
  case Nil
  then show ?case
    by (intro exI [of _ "[]"]) (simp add: appended_def)
next
  case (Cons p ps)
  let ?st1 = "snd (process_paragraph config i st p)"
  let ?st2 = "snd (process_paragraphs config i ?st1 ps)"
  have hp: "is_header p \<longrightarrow> p \<in> set hs"
    using Cons.prems(2) by simp
  obtain gs1 where g1:
    "list_all2 (carries hs) (map text_chunk (fst (process_paragraph config i st p))) gs1"
    "concat gs1 @ appended (current_chunk ?st1) = appended (current_chunk st) @ appended [p]"
    "pending_shape hs ?st1"
    using process_paragraph_groups [OF Cons.prems(1) assms(2) hp, of config i] by blast
  have rest: "\<forall>q \<in> set ps. is_header q \<longrightarrow> q \<in> set hs"
    using Cons.prems(2) by simp
  obtain gs2 where g2:
    "list_all2 (carries hs) (map text_chunk (fst (process_paragraphs config i ?st1 ps))) gs2"
    "concat gs2 @ appended (current_chunk ?st2) = appended (current_chunk ?st1) @ appended ps"
    "pending_shape hs ?st2"
    using Cons.IH [OF g1(3) rest] by blast
  have r: "process_paragraphs config i st (p # ps)
      = (fst (process_paragraph config i st p) @ fst (process_paragraphs config i ?st1 ps), ?st2)"
    by (simp add: split_beta)
  have "concat (gs1 @ gs2) @ appended (current_chunk ?st2)
      = concat gs1 @ appended (current_chunk ?st1) @ appended ps"
    using g2(2) by simp
  also have "\<dots> = (appended (current_chunk st) @ appended [p]) @ appended ps"
    using g1(2) by simp
  also have "\<dots> = appended (current_chunk st) @ appended (p # ps)"
    by (simp add: appended_def)
  finally have e: "concat (gs1 @ gs2) @ appended (current_chunk ?st2)
      = appended (current_chunk st) @ appended (p # ps)" .
  have "list_all2 (carries hs) (map text_chunk (fst (process_paragraphs config i st (p # ps)))) (gs1 @ gs2)"
    unfolding r using g1(1) g2(1) by (simp add: list_all2_appendI)
  with e g2(3) show ?case
    unfolding r by (intro exI [of _ "gs1 @ gs2"]) simp
qed

lemma final_flush_groups:
  assumes "pending_shape hs st"
  shows "\<exists>gs. list_all2 (carries hs) (map text_chunk (final_flush i st)) gs \<and>
     concat gs = appended (current_chunk st)"
proof (cases "current_chunk st = []")
  case True
  then show ?thesis
    by (intro exI [of _ "[]"]) (simp add: final_flush_def appended_def)
next
  case False
  let ?h = "if current_header st \<noteq> [] \<and> current_header st \<notin> set (current_chunk st)
            then current_header st else []"
  have h: "?h \<in> set ([] # hs)"
    using assms by (auto simp: pending_shape_def pending_form_def)
  have "carries hs (prefixed ?h (join_paragraphs (current_chunk st))) (appended (current_chunk st))"
    using assms False h by (rule carries_pending)
  moreover have "map text_chunk (final_flush i st) = [prefixed ?h (join_paragraphs (current_chunk st))]"
    using False by (simp add: final_flush_def Let_def prefixed_def)
  ultimately show ?thesis
    by (intro exI [of _ "[appended (current_chunk st)]"]) simp
qed

lemma document_chunks_groups:
  "\<exists>gs. list_all2 (carries (filter is_header (split_paragraphs doc)))
            (map text_chunk (document_chunks config i doc)) gs \<and>
     concat gs = appended (split_paragraphs doc)"
proof -
  let ?ps = "split_paragraphs doc"
  let ?hs = "filter is_header ?ps"
  let ?r = "process_paragraphs config i initial_state ?ps"
  have k0: "pending_shape ?hs initial_state"
    by (simp add: pending_shape_def pending_form_def initial_state_def seeds_def appended_def)
  have hh: "\<forall>h \<in> set ?hs. is_header h"
    by simp
  have hp: "\<forall>p \<in> set ?ps. is_header p \<longrightarrow> p \<in> set ?hs"
    by simp
  obtain gs1 where g1:
    "list_all2 (carries ?hs) (map text_chunk (fst ?r)) gs1"
    "concat gs1 @ appended (current_chunk (snd ?r)) = appended (current_chunk initial_state) @ appended ?ps"
    "pending_shape ?hs (snd ?r)"
    using process_paragraphs_groups [OF k0 hh hp, of config i] by blast
  obtain gs2 where g2:
    "list_all2 (carries ?hs) (map text_chunk (final_flush i (snd ?r))) gs2"
    "concat gs2 = appended (current_chunk (snd ?r))"
    using final_flush_groups [OF g1(3), of i] by blast
  have d: "document_chunks config i doc = fst ?r @ final_flush i (snd ?r)"
    by (simp add: document_chunks_def split_beta)
  have "concat (gs1 @ gs2) = appended ?ps"
    using g1(2) g2(2) by (simp add: initial_state_def appended_def)
  moreover have "list_all2 (carries ?hs) (map text_chunk (document_chunks config i doc)) (gs1 @ gs2)"
    unfolding d using g1(1) g2(1) by (simp add: list_all2_appendI)
  ultimately show ?thesis
    by (intro exI [of _ "gs1 @ gs2"]) simp
qed

lemma concat_split_at:
  "concat gs = xs @ p # ys \<Longrightarrow>
   \<exists>gs1 g1 g2 gs2. gs = gs1 @ (g1 @ p # g2) # gs2 \<and> xs = concat gs1 @ g1 \<and> ys = g2 @ concat gs2"
proof (induction gs arbitrary: xs)
  case Nil
  then show ?case by simp
next
  case (Cons g gs)
  from Cons.prems have "g @ concat gs = xs @ p # ys"
    by simp
  then consider us where "g = xs @ us" "us @ concat gs = p # ys"
    | us where "g @ us = xs" "concat gs = us @ p # ys"
    by (auto simp: append_eq_append_conv2)
  then show ?case
  proof cases
    case 1
    show ?thesis
    proof (cases us)
      case Nil
      with 1 have "concat gs = [] @ p # ys" and gx: "g = xs"
        by simp_all
      then obtain gs1 g1 g2 gs2 where
        "gs = gs1 @ (g1 @ p # g2) # gs2" "[] = concat gs1 @ g1" "ys = g2 @ concat gs2"
        using Cons.IH [of "[]"] by blast
      with gx have "g # gs = (g # gs1) @ (g1 @ p # g2) # gs2 \<and> xs = concat (g # gs1) @ g1 \<and> ys = g2 @ concat gs2"
        by simp
      then show ?thesis by blast
    next
      case (Cons u us')
      with 1 have "g # gs = [] @ (xs @ p # us') # gs \<and> xs = concat [] @ xs \<and> ys = us' @ concat gs"
        by simp
      then show ?thesis by blast
    qed
  next
    case 2
    then obtain gs1 g1 g2 gs2 where
      "gs = gs1 @ (g1 @ p # g2) # gs2" "us = concat gs1 @ g1" "ys = g2 @ concat gs2"
      using Cons.IH [of us] by blast
    with 2 have "g # gs = (g # gs1) @ (g1 @ p # g2) # gs2 \<and> xs = concat (g # gs1) @ g1 \<and> ys = g2 @ concat gs2"
      by auto
    then show ?thesis by blast
  qed
qed

lemma join_paragraphs_contains:
  "p \<in> set qs \<Longrightarrow> \<exists>a b. join_paragraphs qs = a @ p @ b"
proof (induction qs rule: join_paragraphs.induct)
  case 1
  then show ?case by simp
next
  case (2 q)
  then have "join_paragraphs [q] = [] @ p @ []" by simp
  then show ?case by blast
next
  case (3 q r qs)
  show ?case
  proof (cases "p = q")
    case True
    then have "join_paragraphs (q # r # qs) = [] @ p @ ([NL, NL] @ join_paragraphs (r # qs))"
      by simp
    then show ?thesis by blast
  next
    case False
    with 3 obtain a b where "join_paragraphs (r # qs) = a @ p @ b"
      by auto
    then have "join_paragraphs (q # r # qs) = (q @ [NL, NL] @ a) @ p @ b"
      by simp
    then show ?thesis by blast
  qed
qed

lemma carries_contains:
  assumes "carries hs t g" and "p \<in> set g"
  shows "\<exists>a b. t = a @ p @ b"
proof -
  from assms(1) obtain h seed where t: "t = prefixed h (join_paragraphs (seed @ g))"
    unfolding carries_def by blast
  from assms(2) obtain a b where ab: "join_paragraphs (seed @ g) = a @ p @ b"
    using join_paragraphs_contains [of p "seed @ g"] by auto
  show ?thesis
  proof (cases "h = []")
    case True
    with t ab show ?thesis by (auto simp: prefixed_def)
  next
    case False
    with t ab have "t = (h @ [NL, NL] @ a) @ p @ b"
      by (simp add: prefixed_def)
    then show ?thesis by blast
  qed
qed

text \<open>
  Claim C8. The chunks of a document (\<open>document_chunks\<close> is what \<open>run_markdown\<close> yields for a
  document that is not empty) correspond one to one, in the order of emission, to groups
  of paragraphs: each chunk text is the paragraphs of its group, which is not empty,
  joined by blank lines behind header prefixes only, and the groups, one after the
  other, are exactly the appended paragraphs of the document in their source order. So
  the paragraphs read from the chunks without the header prefixes are the appended
  paragraphs in source order, none lost, repeated or moved, and the chunks follow the
  order of their paragraphs.
\<close>

theorem order_preserved:
  "\<exists>gs. list_all2 (carries (filter is_header (split_paragraphs doc)))
            (map text_chunk (document_chunks config doc_idx doc)) gs \<and>
     concat gs = appended (split_paragraphs doc)"
  by (rule document_chunks_groups)

theorem order_preserved_witness:
  "map text_chunk (document_chunks \<lparr>size_cfg = 3, overlap = 0\<rparr> 0 ''# A\<newline>\<newline>x y z w\<newline>\<newline>v'')
     = [''x y z w'', ''# A\<newline>\<newline>v''] \<and>
   appended (split_paragraphs ''# A\<newline>\<newline>x y z w\<newline>\<newline>v'') = [''x y z w'', ''v''] \<and>
   (\<exists>gs. list_all2 (carries (filter is_header (split_paragraphs ''# A\<newline>\<newline>x y z w\<newline>\<newline>v'')))
            (map text_chunk (document_chunks \<lparr>size_cfg = 3, overlap = 0\<rparr> 0 ''# A\<newline>\<newline>x y z w\<newline>\<newline>v'')) gs \<and>
      concat gs = appended (split_paragraphs ''# A\<newline>\<newline>x y z w\<newline>\<newline>v''))"
proof -
  have a: "map text_chunk (document_chunks \<lparr>size_cfg = 3, overlap = 0\<rparr> 0 ''# A\<newline>\<newline>x y z w\<newline>\<newline>v'')
     = [''x y z w'', ''# A\<newline>\<newline>v'']"
    by code_simp
  have b: "appended (split_paragraphs ''# A\<newline>\<newline>x y z w\<newline>\<newline>v'') = [''x y z w'', ''v'']"
    by code_simp
  from order_preserved [of "''# A\<newline>\<newline>x y z w\<newline>\<newline>v''" "\<lparr>size_cfg = 3, overlap = 0\<rparr>" 0] a b
  show ?thesis
    by (intro conjI)
qed

text \<open>
  Claim C4, as the code has it. Whatever the size, a paragraph with a table or an image
  that is not classified as a header goes whole into exactly one chunk. For the
  paragraph at any place of the document, the chunks split into those before, one chunk
  \<open>c\<close> and those after: the chunks before carry appended paragraphs from before that
  place only, the chunks after carry appended paragraphs from after it only, and \<open>c\<close>
  carries a group of whole paragraphs with this paragraph among them, so that the text
  of \<open>c\<close> holds the paragraph uncut. Every chunk text is made of whole paragraphs joined
  by blank lines, so no chunk cuts through a paragraph.
\<close>

theorem appended_paragraph_whole:
  assumes "split_paragraphs doc = pre @ p # post" and "\<not> is_header p"
    and "rx_search table_pattern p \<or> rx_search image_pattern p"
  shows "\<exists>cs1 c cs2 gs1 g1 g2 gs2.
     document_chunks config doc_idx doc = cs1 @ c # cs2 \<and>
     list_all2 (carries (filter is_header (split_paragraphs doc))) (map text_chunk cs1) gs1 \<and>
     carries (filter is_header (split_paragraphs doc)) (text_chunk c) (g1 @ p # g2) \<and>
     list_all2 (carries (filter is_header (split_paragraphs doc))) (map text_chunk cs2) gs2 \<and>
     concat gs1 @ g1 = appended pre \<and> g2 @ concat gs2 = appended post \<and>
     (\<exists>a b. text_chunk c = a @ p @ b)"
proof -
  let ?hs = "filter is_header (split_paragraphs doc)"
  let ?cs = "document_chunks config doc_idx doc"
  obtain gs where gs: "list_all2 (carries ?hs) (map text_chunk ?cs) gs"
    "concat gs = appended (split_paragraphs doc)"
    using document_chunks_groups [of doc config doc_idx] by blast
  have "appended (split_paragraphs doc) = appended pre @ p # appended post"
    using assms(1,2) by (simp add: appended_def)
  with gs(2) obtain gs1 g1 g2 gs2 where sp:
    "gs = gs1 @ (g1 @ p # g2) # gs2" "appended pre = concat gs1 @ g1" "appended post = g2 @ concat gs2"
    using concat_split_at [of gs "appended pre" p "appended post"] by auto
  from gs(1) obtain ts1 ts2 where ts: "map text_chunk ?cs = ts1 @ ts2"
    "list_all2 (carries ?hs) ts1 gs1" "list_all2 (carries ?hs) ts2 ((g1 @ p # g2) # gs2)"
    unfolding sp(1) by (auto simp: list_all2_append2)
  from ts(3) obtain t ts3 where t3: "ts2 = t # ts3" "carries ?hs t (g1 @ p # g2)"
    "list_all2 (carries ?hs) ts3 gs2"
    by (auto simp: list_all2_Cons2)
  from ts(1) t3(1) obtain cs1 c cs2 where cs: "?cs = cs1 @ c # cs2"
    "map text_chunk cs1 = ts1" "text_chunk c = t" "map text_chunk cs2 = ts3"
    by (auto simp: map_eq_append_conv map_eq_Cons_conv)
  have "\<exists>a b. text_chunk c = a @ p @ b"
    using carries_contains [OF t3(2), of p] cs(3) by simp
  with cs ts(2) t3(2,3) sp(2,3) show ?thesis
    by (intro exI [of _ cs1] exI [of _ c] exI [of _ cs2] exI [of _ gs1] exI [of _ g1]
        exI [of _ g2] exI [of _ gs2]) simp
qed

theorem appended_paragraph_whole_witness:
  "split_paragraphs ''intro\<newline>\<newline>![a](b) c d e\<newline>\<newline>last'' = [''intro''] @ ''![a](b) c d e'' # [''last''] \<and>
   \<not> is_header ''![a](b) c d e'' \<and>
   rx_search image_pattern ''![a](b) c d e'' \<and>
   map text_chunk (document_chunks \<lparr>size_cfg = 3, overlap = 0\<rparr> 0 ''intro\<newline>\<newline>![a](b) c d e\<newline>\<newline>last'')
     = [''intro\<newline>\<newline>![a](b) c d e'', ''last''] \<and>
   (\<exists>cs1 c cs2 gs1 g1 g2 gs2.
     document_chunks \<lparr>size_cfg = 3, overlap = 0\<rparr> 0 ''intro\<newline>\<newline>![a](b) c d e\<newline>\<newline>last'' = cs1 @ c # cs2 \<and>
     list_all2 (carries (filter is_header (split_paragraphs ''intro\<newline>\<newline>![a](b) c d e\<newline>\<newline>last''))) (map text_chunk cs1) gs1 \<and>
     carries (filter is_header (split_paragraphs ''intro\<newline>\<newline>![a](b) c d e\<newline>\<newline>last'')) (text_chunk c) (g1 @ ''![a](b) c d e'' # g2) \<and>
     list_all2 (carries (filter is_header (split_paragraphs ''intro\<newline>\<newline>![a](b) c d e\<newline>\<newline>last''))) (map text_chunk cs2) gs2 \<and>
     concat gs1 @ g1 = appended [''intro''] \<and> g2 @ concat gs2 = appended [''last''] \<and>
     (\<exists>a b. text_chunk c = a @ ''![a](b) c d e'' @ b))"
proof -
  have h1: "split_paragraphs ''intro\<newline>\<newline>![a](b) c d e\<newline>\<newline>last'' = [''intro''] @ ''![a](b) c d e'' # [''last'']"
    by code_simp
  have h2: "\<not> is_header ''![a](b) c d e''"
    by code_simp
  have h3: "rx_search image_pattern ''![a](b) c d e''"
    by code_simp
  have h4: "map text_chunk (document_chunks \<lparr>size_cfg = 3, overlap = 0\<rparr> 0 ''intro\<newline>\<newline>![a](b) c d e\<newline>\<newline>last'')
     = [''intro\<newline>\<newline>![a](b) c d e'', ''last'']"
    by code_simp
  from appended_paragraph_whole [OF h1 h2 disjI2 [OF h3], of "\<lparr>size_cfg = 3, overlap = 0\<rparr>" 0] h1 h2 h3 h4
  show ?thesis
    by (intro conjI)
qed

text \<open>
  A paragraph with an image that is a header line is kept as the active header only;
  when nothing follows it, no chunk holds it.
\<close>

theorem appended_paragraph_whole_counterexample:
  "rx_search image_pattern ''# ![a](b)'' \<and>
   split_paragraphs ''# ![a](b)'' = [''# ![a](b)''] \<and>
   run_markdown [''# ![a](b)''] \<lparr>size_cfg = 3, overlap = 0\<rparr> = [Tick 1]"
  by code_simp

end
